theory Spec2Isabelle
  imports Main "HOL-Library.AList"
begin

section \<open>Python values shared by the three modules\<close>

text \<open>
  A Python \<open>dict\<close> keeps insertion order and overwrites in place, so it is an
  association list with distinct keys: \<open>d[k] = v\<close> is \<open>AList.update k v d\<close>,
  \<open>d.get(k)\<close> is \<open>map_of d k\<close>, \<open>list(d.values())\<close> is \<open>map snd d\<close>.
  A \<open>str\<close> is a \<open>string\<close>; Python's truth test on it (\<open>if s:\<close>) is \<open>s \<noteq> []\<close>,
  and on an \<open>Optional[str]\<close> it is \<open>truthy\<close> below.
\<close>

datatype error =
    ValueError string
  | FileTooLargeError int int
  | MimeNotAllowedError string

fun truthy :: "string option \<Rightarrow> bool" where
  "truthy None = False"
| "truthy (Some s) = (s \<noteq> [])"

text \<open>\<open>x or d\<close> on an optional string.\<close>

fun or_else :: "string option \<Rightarrow> string \<Rightarrow> string" where
  "or_else None d = d"
| "or_else (Some s) d = (if s \<noteq> [] then s else d)"

subsection \<open>\<open>str(n)\<close> on integers\<close>

definition digit_char :: "nat \<Rightarrow> char" where
  "digit_char d = ''0123456789'' ! d"

function str_nat :: "nat \<Rightarrow> string" where
  "str_nat n = (if n < 10 then [digit_char n] else str_nat (n div 10) @ [digit_char (n mod 10)])"
  by pat_completeness auto
termination
  by (relation "measure (\<lambda>n. n)") auto

declare str_nat.simps [simp del]

definition str_int :: "int \<Rightarrow> string" where
  "str_int i = (if i < 0 then CHR ''-'' # str_nat (nat (- i)) else str_nat (nat i))"

section \<open>State store: \<open>topic_manager.py\<close>\<close>

text \<open>
  A topic is the dict \<open>add_topic\<close> builds or \<open>json.load\<close> returns: field name to
  value. The catalog \<open>self.topics\<close> is \<open>Dict[str, dict]\<close>, the selection
  \<open>self.user_states\<close> is \<open>Dict[int, str]\<close>.
\<close>

type_synonym topic = "(string \<times> string) list"

text \<open>
  What a file holds, by what \<open>json.load\<close> makes of it: \<open>Garbage\<close> is text that is
  not JSON (\<open>json.load\<close> raises; an empty or a cut-off file is of this kind) or a
  document that is neither an array nor an object, \<open>Array ts\<close> a root-level array of
  topic objects, \<open>Wrapped ts\<close> the object \<open>{"topics": [...]}\<close>, \<open>Table kvs\<close> an object
  whose values are strings and that has no array under \<open>"topics"\<close>.
\<close>

datatype content =
    Garbage
  | Array "topic list"
  | Wrapped "topic list"
  | Table "(string \<times> string) list"

text \<open>
  The file system: what each path holds (\<open>None\<close>: no such file), and what becomes of
  an attempt to write a document to a path. \<open>Written\<close>: \<open>mkdir\<close>, \<open>open(path, 'w')\<close> and
  \<open>json.dump\<close> all return, and the path holds the document. \<open>Raised left\<close>: one of them
  raises, and \<open>left\<close> is what the path holds afterwards: what it held before when the
  directory could not be made or the file not be opened, an empty or cut-off text when
  \<open>json.dump\<close> raised after \<open>open\<close> had truncated the file. Nothing restricts \<open>left\<close>.
  Two different path strings name two different files.
\<close>

datatype write_result = Written | Raised "content option"

record disk =
  files :: "string \<Rightarrow> content option"
  writes :: "string \<Rightarrow> content \<Rightarrow> write_result"

text \<open>The flag is \<open>False\<close> when the attempt raised.\<close>

definition write_file :: "string \<Rightarrow> content \<Rightarrow> disk \<Rightarrow> bool \<times> disk" where
  "write_file p c d =
     (case writes d p c of
        Written \<Rightarrow> (True, d\<lparr>files := (files d)(p \<mapsto> c)\<rparr>)
      | Raised left \<Rightarrow> (False, d\<lparr>files := (files d)(p := left)\<rparr>))"

record store =
  topics_file :: string
  user_state_file :: string
  default_folder_id :: "string option"
  topics :: "(string \<times> topic) list"
  user_states :: "(int \<times> string) list"
  fs :: disk

text \<open>\<open>_save_topics\<close>: the values of the catalog as a root-level array. The handler
  logs the exception and returns, so both outcomes continue alike, with the file system
  the attempt left.\<close>

definition save_topics :: "store \<Rightarrow> store" where
  "save_topics s =
     (case write_file (topics_file s) (Array (map snd (topics s))) (fs s) of
        (True, d) \<Rightarrow> s\<lparr>fs := d\<rparr>
      | (False, d) \<Rightarrow> s\<lparr>fs := d\<rparr>)"

text \<open>The dict comprehension \<open>{topic['name']: topic for topic in topics_list}\<close>;
  \<open>None\<close> is the \<open>KeyError\<close> of a topic without a name.\<close>

fun topics_by_name :: "topic list \<Rightarrow> (string \<times> topic) list \<Rightarrow> (string \<times> topic) list option" where
  "topics_by_name [] acc = Some acc"
| "topics_by_name (t # ts) acc =
     (case map_of t ''name'' of
        None \<Rightarrow> None
      | Some n \<Rightarrow> topics_by_name ts (AList.update n t acc))"

definition load_topics :: "store \<Rightarrow> store" where
  "load_topics s =
     (case files (fs s) (topics_file s) of
        None \<Rightarrow> save_topics (s\<lparr>topics := []\<rparr>)
      | Some Garbage \<Rightarrow> s\<lparr>topics := []\<rparr>
      | Some (Array ts) \<Rightarrow>
          (case topics_by_name ts [] of None \<Rightarrow> s\<lparr>topics := []\<rparr> | Some m \<Rightarrow> s\<lparr>topics := m\<rparr>)
      | Some (Wrapped ts) \<Rightarrow>
          (case topics_by_name ts [] of None \<Rightarrow> s\<lparr>topics := []\<rparr> | Some m \<Rightarrow> s\<lparr>topics := m\<rparr>)
      | Some (Table kvs) \<Rightarrow> s\<lparr>topics := []\<rparr>)"

text \<open>\<open>_save_user_states\<close>: \<open>{str(user_id): topic_name}\<close>; here too the handler logs
  the exception and returns.\<close>

definition user_table :: "(int \<times> string) list \<Rightarrow> (string \<times> string) list" where
  "user_table us = map (\<lambda>(u, n). (str_int u, n)) us"

definition save_user_states :: "store \<Rightarrow> store" where
  "save_user_states s =
     (case write_file (user_state_file s) (Table (user_table (user_states s))) (fs s) of
        (True, d) \<Rightarrow> s\<lparr>fs := d\<rparr>
      | (False, d) \<Rightarrow> s\<lparr>fs := d\<rparr>)"

text \<open>
  The dict comprehension \<open>{int(user_id): topic_name for ... in data.items()}\<close>.
  \<open>py_int\<close> is Python's \<open>int\<close> on a \<open>str\<close>, a builtin that is no part of this
  repository: \<open>py_int k = None\<close> is its \<open>ValueError\<close>. The loader is defined for every
  such function.
\<close>

fun states_by_id ::
  "(string \<Rightarrow> int option) \<Rightarrow> (string \<times> string) list \<Rightarrow> (int \<times> string) list \<Rightarrow>
     (int \<times> string) list option" where
  "states_by_id py_int [] acc = Some acc"
| "states_by_id py_int ((k, v) # kvs) acc =
     (case py_int k of
        None \<Rightarrow> None
      | Some u \<Rightarrow> states_by_id py_int kvs (AList.update u v acc))"

text \<open>
  \<open>_load_user_states\<close>. A missing file takes the \<open>else\<close> branch, which writes the
  empty table back. Every exception (text that is not JSON, an array, which has no
  \<open>items\<close>, a key that is no integer) takes the handler, which only empties the mapping.
\<close>

definition load_user_states :: "(string \<Rightarrow> int option) \<Rightarrow> store \<Rightarrow> store" where
  "load_user_states py_int s =
     (case files (fs s) (user_state_file s) of
        None \<Rightarrow> save_user_states (s\<lparr>user_states := []\<rparr>)
      | Some Garbage \<Rightarrow> s\<lparr>user_states := []\<rparr>
      | Some (Array ts) \<Rightarrow> s\<lparr>user_states := []\<rparr>
      | Some (Wrapped ts) \<Rightarrow> s\<lparr>user_states := []\<rparr>
      | Some (Table kvs) \<Rightarrow>
          (case states_by_id py_int kvs [] of
             None \<Rightarrow> s\<lparr>user_states := []\<rparr>
           | Some m \<Rightarrow> s\<lparr>user_states := m\<rparr>))"

text \<open>\<open>TopicManager.__init__\<close>, on the file system \<open>d\<close>.\<close>

definition init ::
  "(string \<Rightarrow> int option) \<Rightarrow> string \<Rightarrow> string \<Rightarrow> string option \<Rightarrow> disk \<Rightarrow> store" where
  "init py_int tf uf dflt d =
     load_user_states py_int (load_topics
       \<lparr>topics_file = tf, user_state_file = uf, default_folder_id = dflt,
        topics = [], user_states = [], fs = d\<rparr>)"

definition get_topic :: "store \<Rightarrow> string \<Rightarrow> topic option" where
  "get_topic s n = map_of (topics s) n"

definition get_all_topics :: "store \<Rightarrow> topic list" where
  "get_all_topics s = map snd (topics s)"

text \<open>\<open>set_user_topic\<close>: \<open>if not topic\<close> holds for \<open>None\<close> and for an empty dict.\<close>

definition set_user_topic :: "int \<Rightarrow> string \<Rightarrow> store \<Rightarrow> bool \<times> store" where
  "set_user_topic u n s =
     (case get_topic s n of
        None \<Rightarrow> (False, s)
      | Some t \<Rightarrow>
          if t = [] then (False, s)
          else (True, save_user_states (s\<lparr>user_states := AList.update u n (user_states s)\<rparr>)))"

definition get_user_topic :: "store \<Rightarrow> int \<Rightarrow> string option" where
  "get_user_topic s u = map_of (user_states s) u"

text \<open>\<open>get_folder_id_for_user\<close>: the three tests are Python truth tests, so an empty
  topic name, an empty topic dict and an empty default count as absent.\<close>

definition get_folder_id_for_user :: "store \<Rightarrow> int \<Rightarrow> error + string" where
  "get_folder_id_for_user s u =
     (let fallback =
            (if truthy (default_folder_id s) then Inr (the (default_folder_id s))
             else Inl (ValueError ''No topic set and no default folder configured''))
      in case get_user_topic s u of
           None \<Rightarrow> fallback
         | Some n \<Rightarrow>
             if n = [] then fallback
             else (case get_topic s n of
                     None \<Rightarrow> fallback
                   | Some t \<Rightarrow>
                       if t \<noteq> [] then
                         (case map_of t ''drive_folder_id'' of
                            Some d \<Rightarrow> Inr d
                          | None \<Rightarrow> fallback)
                       else fallback))"

definition get_hashtag_for_user :: "store \<Rightarrow> int \<Rightarrow> string option" where
  "get_hashtag_for_user s u =
     (case get_user_topic s u of
        None \<Rightarrow> None
      | Some n \<Rightarrow>
          if n = [] then None
          else (case get_topic s n of
                  None \<Rightarrow> None
                | Some t \<Rightarrow> if t \<noteq> [] then map_of t ''hashtag'' else None))"

definition clear_user_topic :: "int \<Rightarrow> store \<Rightarrow> store" where
  "clear_user_topic u s =
     (if u \<in> set (map fst (user_states s))
      then save_user_states (s\<lparr>user_states := AList.delete u (user_states s)\<rparr>)
      else s)"

definition new_topic :: "string \<Rightarrow> string \<Rightarrow> string option \<Rightarrow> string option \<Rightarrow> topic" where
  "new_topic name drive_folder_id hashtag description =
     [(''name'', name),
      (''drive_folder_id'', drive_folder_id),
      (''hashtag'', or_else hashtag (CHR ''#'' # name)),
      (''description'', or_else description (name @ '' related content''))]"

definition add_topic :: "string \<Rightarrow> string \<Rightarrow> string option \<Rightarrow> string option \<Rightarrow> store \<Rightarrow> bool \<times> store" where
  "add_topic name drive_folder_id hashtag description s =
     (if name \<in> set (map fst (topics s)) then (False, s)
      else (True, save_topics
              (s\<lparr>topics := AList.update name (new_topic name drive_folder_id hashtag description) (topics s)\<rparr>)))"

section \<open>Upload orchestrator: \<open>drive_uploader.py\<close>\<close>

text \<open>
  The storage backend is the Drive service behind \<open>self.service\<close>: a call to
  \<open>files().create\<close> adds one object and returns its id. The model keeps the objects
  in creation order and names the next id after their number. A call always returns:
  the client library's \<open>HttpError\<close> is raised outside this repository and the
  uploader has no handler for it.
\<close>

datatype drive_obj =
    Folder (obj_id: string) (obj_name: string) (obj_parent: string)
  | File (obj_id: string) (obj_name: string) (obj_parent: string)
      (obj_content: string) (obj_mime: string)

type_synonym drive = "drive_obj list"

definition fresh_id :: "drive \<Rightarrow> string" where
  "fresh_id d = ''id'' @ str_nat (length d)"

record uploader =
  max_file_size :: int
  allowed_mime_types :: "string list option"

text \<open>An item of a batch: \<open>(filename, content_bytes, mime_type)\<close>.\<close>

type_synonym item = "string \<times> string \<times> string option"

definition validate_size :: "uploader \<Rightarrow> int \<Rightarrow> error + unit" where
  "validate_size cfg sz =
     (if sz > max_file_size cfg then Inl (FileTooLargeError sz (max_file_size cfg))
      else Inr ())"

definition validate_mime :: "uploader \<Rightarrow> string option \<Rightarrow> error + unit" where
  "validate_mime cfg mime_type =
     (case allowed_mime_types cfg of
        None \<Rightarrow> Inr ()
      | Some allowed \<Rightarrow>
          (case mime_type of
             None \<Rightarrow> Inr ()
           | Some m \<Rightarrow>
               if m = [] then Inr ()
               else if m \<notin> set allowed then Inl (MimeNotAllowedError m)
               else Inr ()))"

text \<open>The two checks in the order every caller runs them: size, then MIME.\<close>

definition validate :: "uploader \<Rightarrow> int \<Rightarrow> string option \<Rightarrow> error + unit" where
  "validate cfg sz mime_type =
     (case validate_size cfg sz of
        Inl e \<Rightarrow> Inl e
      | Inr _ \<Rightarrow> validate_mime cfg mime_type)"

definition validate_item :: "uploader \<Rightarrow> item \<Rightarrow> error + unit" where
  "validate_item cfg it = (case it of (filename, content, mime_type) \<Rightarrow>
     validate cfg (int (length content)) mime_type)"

definition upload_file_bytes ::
  "uploader \<Rightarrow> string \<Rightarrow> string \<Rightarrow> string \<Rightarrow> string option \<Rightarrow> drive \<Rightarrow> (error + string) \<times> drive" where
  "upload_file_bytes cfg folder_id filename content mime_type d =
     (case validate_size cfg (int (length content)) of
        Inl e \<Rightarrow> (Inl e, d)
      | Inr _ \<Rightarrow>
          (case validate_mime cfg mime_type of
             Inl e \<Rightarrow> (Inl e, d)
           | Inr _ \<Rightarrow>
               (Inr (fresh_id d),
                d @ [File (fresh_id d) filename folder_id content
                       (or_else mime_type ''application/octet-stream'')])))"

definition create_subfolder :: "string \<Rightarrow> string \<Rightarrow> drive \<Rightarrow> string \<times> drive" where
  "create_subfolder parent_id name d = (fresh_id d, d @ [Folder (fresh_id d) name parent_id])"

text \<open>The loop of \<open>upload_media_group\<close>: an exception leaves the loop, and what the
  backend already stored stays stored.\<close>

fun upload_items :: "uploader \<Rightarrow> string \<Rightarrow> item list \<Rightarrow> drive \<Rightarrow> (error + unit) \<times> drive" where
  "upload_items cfg subfolder_id [] d = (Inr (), d)"
| "upload_items cfg subfolder_id ((filename, content, mime_type) # rest) d =
     (case validate_size cfg (int (length content)) of
        Inl e \<Rightarrow> (Inl e, d)
      | Inr _ \<Rightarrow>
          (case validate_mime cfg mime_type of
             Inl e \<Rightarrow> (Inl e, d)
           | Inr _ \<Rightarrow>
               (case upload_file_bytes cfg subfolder_id filename content mime_type d of
                  (Inl e, d') \<Rightarrow> (Inl e, d')
                | (Inr _, d') \<Rightarrow> upload_items cfg subfolder_id rest d')))"

text \<open>\<open>upload_media_group\<close>; \<open>timestamp\<close> is
  \<open>datetime.now().strftime("%Y%m%d_%H%M%S")\<close>.\<close>

definition upload_media_group ::
  "uploader \<Rightarrow> string \<Rightarrow> string \<Rightarrow> item list \<Rightarrow> drive \<Rightarrow> (error + string) \<times> drive" where
  "upload_media_group cfg timestamp folder_id items d =
     (case create_subfolder folder_id (''Album_'' @ timestamp) d of
        (subfolder_id, d1) \<Rightarrow>
          (case upload_items cfg subfolder_id items d1 of
             (Inl e, d2) \<Rightarrow> (Inl e, d2)
           | (Inr _, d2) \<Rightarrow> (Inr subfolder_id, d2)))"

text \<open>What a stored file shows of the item it came from.\<close>

definition stored_item :: "drive_obj \<Rightarrow> string \<times> string" where
  "stored_item f = (obj_name f, obj_content f)"

section \<open>Aggregation engine: \<open>bot.py\<close>\<close>

text \<open>
  A Telegram message, as far as the engine reads it. The buffer's entries are pairs of
  a message and the handler's context; the context is only the handle through which
  reactions are sent and is left out.
\<close>

record message =
  chat_id :: int
  message_id :: int
  from_user :: "int option"
  media_group_id :: "string option"

text \<open>
  Time is counted in milliseconds. \<open>MEDIA_GROUP_DELAY_SEC = 1.5\<close>.
\<close>

definition MEDIA_GROUP_DELAY :: nat where
  "MEDIA_GROUP_DELAY = 1500"

text \<open>
  The module's globals. Each value of \<open>_media_group_buffer\<close> is a list object that
  \<open>append\<close> mutates in place and that a running flush still holds after \<open>pop\<close>, so
  the buffer maps a key to a reference and \<open>entries_at\<close> maps a reference to the entries
  of that list. \<open>sleeping\<close> are the tasks made by \<open>schedule_media_group\<close> that are
  inside \<open>asyncio.sleep\<close>, each with the time at which it wakes and its key, in the
  order they were made; \<open>_media_group_tasks\<close> maps a key to the wake-up time of its task.
  The lock is held across each \<open>async with\<close> block and no block awaits inside, so each
  block is one step.
\<close>

record engine =
  media_group_buffer :: "(string \<times> nat) list"
  entries_at :: "nat \<Rightarrow> message list"
  next_ref :: nat
  media_group_tasks :: "(string \<times> nat) list"
  sleeping :: "(nat \<times> string) list"

definition empty_engine :: engine where
  "empty_engine =
     \<lparr>media_group_buffer = [], entries_at = (\<lambda>r. []), next_ref = 0,
      media_group_tasks = [], sleeping = []\<rparr>"

text \<open>\<open>schedule_media_group\<close>, run at time \<open>now\<close>: the new task sleeps for the delay
  from now on, and is registered under the key.\<close>

definition schedule_media_group :: "nat \<Rightarrow> string \<Rightarrow> engine \<Rightarrow> engine" where
  "schedule_media_group now mgid e =
     e\<lparr>sleeping := sleeping e @ [(now + MEDIA_GROUP_DELAY, mgid)],
       media_group_tasks := AList.update mgid (now + MEDIA_GROUP_DELAY) (media_group_tasks e)\<rparr>"

text \<open>Where \<open>handle_media_with_group\<close> sends an update.\<close>

datatype dispatch = Ignored | Buffered engine | Single message

text \<open>
  \<open>handle_media_with_group\<close> on an update that arrives at time \<open>now\<close>. \<open>if mgid:\<close> is
  a truth test: \<open>None\<close> and the empty string both take the single-message path. The task
  made by \<open>asyncio.create_task(schedule_media_group(mgid))\<close> runs on the same turn of
  the event loop.
\<close>

definition handle_media_with_group :: "nat \<Rightarrow> message option \<Rightarrow> engine \<Rightarrow> dispatch" where
  "handle_media_with_group now upd e =
     (case upd of
        None \<Rightarrow> Ignored
      | Some msg \<Rightarrow>
          (case media_group_id msg of
             None \<Rightarrow> Single msg
           | Some mgid \<Rightarrow>
               if mgid = [] then Single msg
               else
                 (case map_of (media_group_buffer e) mgid of
                    None \<Rightarrow>
                      Buffered
                        ((schedule_media_group now mgid e)
                           \<lparr>media_group_buffer := AList.update mgid (next_ref e) (media_group_buffer e),
                            entries_at := (entries_at e)(next_ref e := [msg]),
                            next_ref := Suc (next_ref e)\<rparr>)
                  | Some r \<Rightarrow> Buffered (e\<lparr>entries_at := (entries_at e)(r := entries_at e r @ [msg])\<rparr>))))"

text \<open>The locked block of \<open>process_media_group\<close> (lines 302 to 307): the group leaves
  the buffer and the flush keeps the reference to its list.\<close>

definition take_group :: "string \<Rightarrow> engine \<Rightarrow> nat option \<times> engine" where
  "take_group mgid e =
     (case map_of (media_group_buffer e) mgid of
        None \<Rightarrow> (None, e)
      | Some r \<Rightarrow>
          (Some r,
           e\<lparr>media_group_buffer := AList.delete mgid (media_group_buffer e),
             media_group_tasks := AList.delete mgid (media_group_tasks e)\<rparr>))"

text \<open>
  The rest of \<open>process_media_group\<close> (lines 309 to 354: the reactions, the downloads and
  the call of \<open>upload_media_group\<close>) works on the list the locked block took and reads or
  writes none of the engine's globals. It is no part of this model of the engine.
\<close>

subsection \<open>The event loop\<close>

text \<open>
  A run of the engine: the engine, and the flushes so far, each with the time it began,
  its key and the entries it took. At time \<open>t\<close> the event loop wakes every sleeping task
  whose time has come, in the order they went to sleep; each runs the locked block of
  \<open>process_media_group\<close>. An update that arrives at time \<open>t\<close> is handled after them.
\<close>

record run_state =
  eng :: engine
  flushed :: "(nat \<times> string \<times> message list) list"

definition fire :: "nat \<Rightarrow> string \<Rightarrow> run_state \<Rightarrow> run_state" where
  "fire due mgid s =
     (case take_group mgid (eng s) of
        (None, e') \<Rightarrow> s\<lparr>eng := e'\<rparr>
      | (Some r, e') \<Rightarrow> s\<lparr>eng := e', flushed := flushed s @ [(due, mgid, entries_at e' r)]\<rparr>)"

fun wake :: "nat \<Rightarrow> (nat \<times> string) list \<Rightarrow> run_state \<Rightarrow> run_state" where
  "wake t [] s = s"
| "wake t ((due, mgid) # tasks) s = wake t tasks (if due \<le> t then fire due mgid s else s)"

definition advance :: "nat \<Rightarrow> run_state \<Rightarrow> run_state" where
  "advance t s =
     (let s' = wake t (sleeping (eng s)) s
      in s'\<lparr>eng := (eng s')\<lparr>sleeping := filter (\<lambda>(due, mgid). \<not> due \<le> t) (sleeping (eng s'))\<rparr>\<rparr>)"

definition arrive :: "nat \<Rightarrow> message \<Rightarrow> run_state \<Rightarrow> run_state" where
  "arrive t msg s =
     (let s' = advance t s
      in case handle_media_with_group t (Some msg) (eng s') of
           Buffered e' \<Rightarrow> s'\<lparr>eng := e'\<rparr>
         | Single m \<Rightarrow> s'
         | Ignored \<Rightarrow> s')"

fun run :: "(nat \<times> message) list \<Rightarrow> run_state \<Rightarrow> run_state" where
  "run [] s = s"
| "run ((t, msg) # evs) s = run evs (arrive t msg s)"

text \<open>The flushes of one key, and the updates that carry it.\<close>

definition flushes_of :: "string \<Rightarrow> run_state \<Rightarrow> (nat \<times> message list) list" where
  "flushes_of g s = map (\<lambda>(t, k, ms). (t, ms)) (filter (\<lambda>(t, k, ms). k = g) (flushed s))"


text \<open>
  The invariant of the engine: references in the buffer are allocated and pairwise
  different, and no key is empty.
\<close>

definition wf_engine :: "engine \<Rightarrow> bool" where
  "wf_engine e \<longleftrightarrow>
     (\<forall>(k, r) \<in> set (media_group_buffer e). r < next_ref e \<and> k \<noteq> []) \<and>
     distinct (map snd (media_group_buffer e)) \<and>
     distinct (map fst (media_group_buffer e))"

text \<open>A key is idle when it has no group and no task, and collecting when it has a
  group with the given entries and exactly one task, due at the given time.\<close>

definition idle :: "string \<Rightarrow> engine \<Rightarrow> bool" where
  "idle g e \<longleftrightarrow>
     map_of (media_group_buffer e) g = None \<and> filter (\<lambda>(due, k). k = g) (sleeping e) = []"

definition collecting :: "string \<Rightarrow> nat \<Rightarrow> message list \<Rightarrow> engine \<Rightarrow> bool" where
  "collecting g due ms e \<longleftrightarrow>
     (\<exists>r. map_of (media_group_buffer e) g = Some r \<and> entries_at e r = ms) \<and>
     filter (\<lambda>(d, k). k = g) (sleeping e) = [(due, g)]"

text \<open>What one step leaves of the group of a key: its reference, the entries of its
  list and its tasks.\<close>

definition same_group :: "string \<Rightarrow> engine \<Rightarrow> engine \<Rightarrow> bool" where
  "same_group g e e' \<longleftrightarrow>
     map_of (media_group_buffer e') g = map_of (media_group_buffer e) g \<and>
     (\<forall>r. map_of (media_group_buffer e) g = Some r \<longrightarrow> entries_at e' r = entries_at e r) \<and>
     filter (\<lambda>(d, k). k = g) (sleeping e') = filter (\<lambda>(d, k). k = g) (sleeping e)"

text \<open>A list that was allocated and that the buffer no longer refers to: the list a
  flush holds.\<close>

definition detached :: "nat \<Rightarrow> engine \<Rightarrow> bool" where
  "detached r e \<longleftrightarrow> r < next_ref e \<and> r \<notin> set (map snd (media_group_buffer e))"

text \<open>The states the event loop can reach: the invariant holds, and every key is
  idle or collecting.\<close>

definition settled :: "engine \<Rightarrow> bool" where
  "settled e \<longleftrightarrow> wf_engine e \<and> (\<forall>g. idle g e \<or> (\<exists>due ms. collecting g due ms e))"

section \<open>Concrete states\<close>

definition demo_disk :: disk where
  "demo_disk = \<lparr>files = (\<lambda>p. None), writes = (\<lambda>p c. Written)\<rparr>"

definition locked_disk :: disk where
  "locked_disk = \<lparr>files = (\<lambda>p. None), writes = (\<lambda>p c. Raised None)\<rparr>"

definition corrupt_disk :: disk where
  "corrupt_disk =
     \<lparr>files = (\<lambda>p. if p = ''user_topics.json'' then Some Garbage else None),
      writes = (\<lambda>p c. Written)\<rparr>"

text \<open>The disks below hold no table, so the conversion of keys is never called on
  them; this one stands in for it.\<close>

definition no_key :: "string \<Rightarrow> int option" where
  "no_key k = None"

definition demo_store :: store where
  "demo_store = init no_key ''topics.json'' ''user_topics.json'' (Some ''ROOT'') demo_disk"

definition locked_store :: store where
  "locked_store = init no_key ''topics.json'' ''user_topics.json'' (Some ''ROOT'') locked_disk"

definition bare_store :: store where
  "bare_store = init no_key ''topics.json'' ''user_topics.json'' None demo_disk"

definition demo_uploader :: uploader where
  "demo_uploader = \<lparr>max_file_size = 4, allowed_mime_types = Some [''image/jpeg'']\<rparr>"

definition photo :: "int \<Rightarrow> string \<Rightarrow> message" where
  "photo i g =
     \<lparr>chat_id = 7, message_id = i, from_user = Some 42, media_group_id = Some g\<rparr>"

definition start :: run_state where
  "start = \<lparr>eng = empty_engine, flushed = []\<rparr>"

definition busy :: run_state where
  "busy = run [(0, photo 1 ''G1''), (500, photo 2 ''G1'')] start"

section \<open>Properties of the state store\<close>

lemma get_topic_absent: "get_topic s n = None \<longleftrightarrow> n \<notin> set (map fst (topics s))"
  by (simp add: get_topic_def map_of_eq_None_iff)

lemma update_fresh: "k \<notin> set (map fst al) \<Longrightarrow> AList.update k v al = al @ [(k, v)]"
  by (induction al) auto

lemma save_topics_keeps [simp]:
  "topics (save_topics s) = topics s"
  "user_states (save_topics s) = user_states s"
  "default_folder_id (save_topics s) = default_folder_id s"
  "topics_file (save_topics s) = topics_file s"
  "user_state_file (save_topics s) = user_state_file s"
  by (simp_all add: save_topics_def split: prod.splits bool.splits)

lemma save_user_states_keeps [simp]:
  "topics (save_user_states s) = topics s"
  "user_states (save_user_states s) = user_states s"
  "default_folder_id (save_user_states s) = default_folder_id s"
  "topics_file (save_user_states s) = topics_file s"
  "user_state_file (save_user_states s) = user_state_file s"
  by (simp_all add: save_user_states_def split: prod.splits bool.splits)

lemma fs_save_topics:
  "fs (save_topics s) = snd (write_file (topics_file s) (Array (map snd (topics s))) (fs s))"
  by (simp add: save_topics_def split: prod.splits bool.splits)

lemma fs_save_user_states:
  "fs (save_user_states s) =
     snd (write_file (user_state_file s) (Table (user_table (user_states s))) (fs s))"
  by (simp add: save_user_states_def split: prod.splits bool.splits)

lemma files_write_file:
  "files (snd (write_file p c d)) q =
     (if q = p then (case writes d p c of Written \<Rightarrow> Some c | Raised left \<Rightarrow> left)
      else files d q)"
  by (simp add: write_file_def split: write_result.splits)

lemma writes_write_file [simp]: "writes (snd (write_file p c d)) = writes d"
  by (simp add: write_file_def split: write_result.splits)

lemma load_topics_keeps:
  "user_state_file (load_topics s) = user_state_file s"
  "files (fs s) (user_state_file s) = Some c \<Longrightarrow>
     files (fs (load_topics s)) (user_state_file s) = Some c"
  by (auto simp: load_topics_def fs_save_topics files_write_file
        split: option.splits content.splits)

lemma load_user_states_raises:
  assumes "files (fs s) (user_state_file s) = Some c"
    and "\<forall>kvs. c = Table kvs \<longrightarrow> states_by_id py_int kvs [] = None"
  shows "load_user_states py_int s = s\<lparr>user_states := []\<rparr>"
  using assms by (cases c) (simp_all add: load_user_states_def)

text \<open>
  Claim C3, as amended. A name that is not in the catalog makes \<open>set_user_topic\<close> return
  \<open>False\<close> and leaves the whole state, memory and disk, as it was. When it returns
  \<open>True\<close> the selection of the user is the new name, every other selection is as
  before, and the user-state file holds the full table whenever the write of that table
  did not raise. Whether the call succeeds does not depend on the write: it returns
  \<open>True\<close> for every name that has a topic.
\<close>

theorem set_user_topic_contract:
  "(get_topic s n = None \<longrightarrow> set_user_topic u n s = (False, s)) \<and>
   (set_user_topic u n s = (True, s') \<longrightarrow>
      user_states s' = AList.update u n (user_states s) \<and>
      get_user_topic s' u = Some n \<and>
      (\<forall>v. v \<noteq> u \<longrightarrow> get_user_topic s' v = get_user_topic s v) \<and>
      (writes (fs s) (user_state_file s) (Table (user_table (user_states s'))) = Written \<longrightarrow>
         files (fs s') (user_state_file s) = Some (Table (user_table (user_states s'))))) \<and>
   (\<forall>t. get_topic s n = Some t \<and> t \<noteq> [] \<longrightarrow> fst (set_user_topic u n s))"
  by (auto simp: set_user_topic_def fs_save_user_states files_write_file get_user_topic_def
        AList.update_conv' split: option.splits if_splits)

theorem set_user_topic_contract_witness:
  "set_user_topic 42 ''home'' (snd (add_topic ''work'' ''F1'' None None demo_store))
     = (False, snd (add_topic ''work'' ''F1'' None None demo_store)) \<and>
   fst (set_user_topic 42 ''work'' (snd (add_topic ''work'' ''F1'' None None demo_store))) \<and>
   files (fs (snd (set_user_topic 42 ''work'' (snd (add_topic ''work'' ''F1'' None None demo_store)))))
     ''user_topics.json'' = Some (Table [(''42'', ''work'')])"
  using set_user_topic_contract
    [of "snd (add_topic ''work'' ''F1'' None None demo_store)" "''home''" 42]
    set_user_topic_contract
    [of "snd (add_topic ''work'' ''F1'' None None demo_store)" "''work''" 42
        "snd (set_user_topic 42 ''work'' (snd (add_topic ''work'' ''F1'' None None demo_store)))"]
  by (simp add: demo_store_def demo_disk_def init_def load_topics_def load_user_states_def
        save_topics_def save_user_states_def write_file_def add_topic_def new_topic_def
        set_user_topic_def get_topic_def user_table_def str_int_def str_nat.simps digit_char_def)

text \<open>The claim as stated fails where the write of the user-state file raises: the call
  succeeds, the selection is in memory, and the file does not hold it.\<close>

theorem set_user_topic_counterexample:
  "fst (set_user_topic 42 ''work'' (snd (add_topic ''work'' ''F1'' None None locked_store))) \<and>
   get_user_topic (snd (set_user_topic 42 ''work'' (snd (add_topic ''work'' ''F1'' None None locked_store)))) 42
     = Some ''work'' \<and>
   files (fs (snd (set_user_topic 42 ''work'' (snd (add_topic ''work'' ''F1'' None None locked_store)))))
     ''user_topics.json'' = None"
  by (simp add: locked_store_def locked_disk_def init_def load_topics_def load_user_states_def
        save_topics_def save_user_states_def write_file_def add_topic_def new_topic_def
        set_user_topic_def get_topic_def get_user_topic_def)

text \<open>
  Claim C9, as amended. A name that is in the catalog makes \<open>add_topic\<close> return \<open>False\<close>
  and leaves the whole state as it was. A name that is not makes it return \<open>True\<close>,
  whatever becomes of the write; the new topic is the last of the catalog, and the topics
  file holds the full catalog whenever the write of that catalog did not raise.
\<close>

theorem add_topic_contract:
  "(get_topic s n \<noteq> None \<longrightarrow> add_topic n d h desc s = (False, s)) \<and>
   (get_topic s n = None \<longrightarrow>
      (\<exists>s'. add_topic n d h desc s = (True, s') \<and>
         topics s' = topics s @ [(n, new_topic n d h desc)] \<and>
         user_states s' = user_states s \<and>
         (writes (fs s) (topics_file s) (Array (get_all_topics s')) = Written \<longrightarrow>
            files (fs s') (topics_file s) = Some (Array (get_all_topics s')))))"
  by (auto simp: add_topic_def fs_save_topics files_write_file get_topic_absent
        get_all_topics_def update_fresh split: option.splits if_splits)

theorem add_topic_contract_witness:
  "add_topic ''work'' ''F2'' None None (snd (add_topic ''work'' ''F1'' None None demo_store))
     = (False, snd (add_topic ''work'' ''F1'' None None demo_store)) \<and>
   (\<exists>s'. add_topic ''work'' ''F1'' None None demo_store = (True, s') \<and>
      files (fs s') ''topics.json'' = Some (Array [new_topic ''work'' ''F1'' None None]))"
  using add_topic_contract
    [of "snd (add_topic ''work'' ''F1'' None None demo_store)" "''work''" "''F2''" None None]
    add_topic_contract [of demo_store "''work''" "''F1''" None None]
  by (simp add: demo_store_def demo_disk_def init_def load_topics_def load_user_states_def
        save_topics_def save_user_states_def write_file_def add_topic_def get_topic_def
        get_all_topics_def)

text \<open>The claim as stated fails where the write of the topics file raises: the call
  succeeds, the topic is in memory, and the file does not hold it.\<close>

theorem add_topic_counterexample:
  "fst (add_topic ''work'' ''F1'' None None locked_store) \<and>
   get_topic (snd (add_topic ''work'' ''F1'' None None locked_store)) ''work''
     = Some (new_topic ''work'' ''F1'' None None) \<and>
   files (fs (snd (add_topic ''work'' ''F1'' None None locked_store))) ''topics.json'' = None"
  by (simp add: locked_store_def locked_disk_def init_def load_topics_def load_user_states_def
        save_topics_def save_user_states_def write_file_def add_topic_def get_topic_def)

text \<open>
  Claim C4, as amended. \<open>get_folder_id_for_user\<close> returns the destination of the
  selected topic when the selection is a non-empty name whose topic has one; with no
  selection it returns the default when that is a non-empty string; and it raises
  exactly when there is neither such a destination nor a non-empty default.
\<close>

theorem get_folder_id_contract:
  "(get_user_topic s u = Some n \<and> n \<noteq> [] \<and> get_topic s n = Some t \<and>
      map_of t ''drive_folder_id'' = Some d \<longrightarrow> get_folder_id_for_user s u = Inr d) \<and>
   (get_user_topic s u = None \<and> default_folder_id s = Some d \<and> d \<noteq> [] \<longrightarrow>
      get_folder_id_for_user s u = Inr d) \<and>
   ((\<exists>e. get_folder_id_for_user s u = Inl e) \<longleftrightarrow>
      \<not> (\<exists>n t d. get_user_topic s u = Some n \<and> n \<noteq> [] \<and> get_topic s n = Some t \<and>
                 map_of t ''drive_folder_id'' = Some d) \<and>
      \<not> truthy (default_folder_id s))"
  by (auto simp: get_folder_id_for_user_def Let_def split: option.splits if_splits)

theorem get_folder_id_contract_witness:
  "get_folder_id_for_user
     (snd (set_user_topic 42 ''work'' (snd (add_topic ''work'' ''F1'' None None demo_store)))) 42
     = Inr ''F1'' \<and>
   get_folder_id_for_user demo_store 42 = Inr ''ROOT'' \<and>
   (\<exists>e. get_folder_id_for_user bare_store 42 = Inl e)"
  using get_folder_id_contract
    [of "snd (set_user_topic 42 ''work'' (snd (add_topic ''work'' ''F1'' None None demo_store)))"
        42 "''work''" "new_topic ''work'' ''F1'' None None" "''F1''"]
    get_folder_id_contract [of demo_store 42 _ _ "''ROOT''"]
    get_folder_id_contract [of bare_store 42]
  by (simp add: demo_store_def bare_store_def demo_disk_def init_def load_topics_def
        load_user_states_def save_topics_def save_user_states_def write_file_def add_topic_def
        new_topic_def set_user_topic_def get_topic_def get_user_topic_def)

text \<open>The claim as stated fails for a selection that exists and is the empty name: the
  catalog holds its destination, and the default is returned.\<close>

theorem get_folder_id_counterexample:
  "get_user_topic
     (snd (set_user_topic 1 [] (snd (add_topic [] ''F'' None None demo_store)))) 1 = Some [] \<and>
   get_topic (snd (set_user_topic 1 [] (snd (add_topic [] ''F'' None None demo_store)))) []
     = Some (new_topic [] ''F'' None None) \<and>
   map_of (new_topic [] ''F'' None None) ''drive_folder_id'' = Some ''F'' \<and>
   get_folder_id_for_user
     (snd (set_user_topic 1 [] (snd (add_topic [] ''F'' None None demo_store)))) 1 = Inr ''ROOT''"
  by (simp add: demo_store_def demo_disk_def init_def load_topics_def
        load_user_states_def save_topics_def save_user_states_def write_file_def add_topic_def
        new_topic_def set_user_topic_def get_topic_def get_user_topic_def
        get_folder_id_for_user_def)

text \<open>
  Claim C8, as amended. From a state whose catalog has no topic \<open>n\<close>, with \<open>n\<close> not
  the empty string: \<open>add_topic n d\<close> succeeds, then \<open>set_user_topic u n\<close> succeeds for
  any user, and then \<open>get_folder_id_for_user u\<close> returns exactly \<open>d\<close>.
\<close>

theorem add_select_resolve:
  assumes "get_topic s n = None" and "n \<noteq> []"
  shows "\<exists>s1 s2. add_topic n d h desc s = (True, s1) \<and> set_user_topic u n s1 = (True, s2) \<and>
           get_folder_id_for_user s2 u = Inr d"
proof -
  let ?t = "new_topic n d h desc"
  let ?s1 = "save_topics (s\<lparr>topics := AList.update n ?t (topics s)\<rparr>)"
  let ?s2 = "save_user_states (?s1\<lparr>user_states := AList.update u n (user_states ?s1)\<rparr>)"
  from assms(1) have a: "add_topic n d h desc s = (True, ?s1)"
    by (simp add: add_topic_def get_topic_absent)
  have t: "get_topic ?s1 n = Some ?t" "?t \<noteq> []" "map_of ?t ''drive_folder_id'' = Some d"
    by (simp_all add: get_topic_def AList.update_conv' new_topic_def)
  then have b: "set_user_topic u n ?s1 = (True, ?s2)"
    by (simp add: set_user_topic_def)
  have "get_user_topic ?s2 u = Some n" "get_topic ?s2 n = Some ?t"
    by (simp_all add: get_user_topic_def get_topic_def AList.update_conv')
  with t(2,3) assms(2) have "get_folder_id_for_user ?s2 u = Inr d"
    by (simp add: get_folder_id_for_user_def Let_def)
  with a b show ?thesis by blast
qed

theorem add_select_resolve_witness:
  "\<exists>s1 s2. add_topic ''work'' ''F1'' None None demo_store = (True, s1) \<and>
     set_user_topic 42 ''work'' s1 = (True, s2) \<and> get_folder_id_for_user s2 42 = Inr ''F1''"
  using add_select_resolve [of demo_store "''work''" "''F1''" None None 42]
  by (simp add: demo_store_def demo_disk_def init_def load_topics_def
        load_user_states_def save_topics_def save_user_states_def write_file_def get_topic_def)

text \<open>The claim as stated fails for the empty name: both calls succeed and no
  destination is found.\<close>

theorem add_select_resolve_counterexample:
  "get_topic bare_store [] = None \<and>
   fst (add_topic [] ''F1'' None None bare_store) \<and>
   fst (set_user_topic 42 [] (snd (add_topic [] ''F1'' None None bare_store))) \<and>
   get_folder_id_for_user
     (snd (set_user_topic 42 [] (snd (add_topic [] ''F1'' None None bare_store)))) 42
     = Inl (ValueError ''No topic set and no default folder configured'')"
  by (simp add: bare_store_def demo_disk_def init_def load_topics_def
        load_user_states_def save_topics_def save_user_states_def write_file_def add_topic_def
        new_topic_def set_user_topic_def get_topic_def get_user_topic_def
        get_folder_id_for_user_def)

text \<open>
  Claim C7, as amended. Starting the store on a user-state file from which the loader
  cannot read a table (text that is not JSON, a document of another shape, a key on which
  \<open>int\<close> raises) returns a store whose selection mapping is empty, and the file is on
  disk as it was: nothing is written back.
\<close>

theorem corrupted_user_file_kept:
  assumes "files d uf = Some c"
    and "\<forall>kvs. c = Table kvs \<longrightarrow> states_by_id py_int kvs [] = None"
  shows "user_states (init py_int tf uf dflt d) = [] \<and>
         files (fs (init py_int tf uf dflt d)) uf = Some c"
proof -
  let ?s0 = "\<lparr>topics_file = tf, user_state_file = uf, default_folder_id = dflt,
              topics = [], user_states = [], fs = d\<rparr>"
  from assms(1) have "files (fs ?s0) (user_state_file ?s0) = Some c" by simp
  from load_topics_keeps(2)[OF this] load_topics_keeps(1)[of ?s0]
  have k: "files (fs (load_topics ?s0)) (user_state_file (load_topics ?s0)) = Some c"
    and u: "user_state_file (load_topics ?s0) = uf" by simp_all
  from load_user_states_raises[OF k assms(2)] k u show ?thesis
    by (simp add: init_def)
qed

theorem corrupted_user_file_kept_witness:
  "user_states (init no_key ''topics.json'' ''user_topics.json'' (Some ''ROOT'') corrupt_disk) = [] \<and>
   files (fs (init no_key ''topics.json'' ''user_topics.json'' (Some ''ROOT'') corrupt_disk))
     ''user_topics.json'' = Some Garbage"
  using corrupted_user_file_kept
    [of corrupt_disk "''user_topics.json''" Garbage no_key "''topics.json''" "Some ''ROOT''"]
  by (simp add: corrupt_disk_def)

text \<open>The claim as stated fails on a file that is not JSON: after startup the file
  does not hold the empty table that a fresh write would have put there.\<close>

theorem corrupted_user_file_counterexample:
  "user_states (init no_key ''topics.json'' ''user_topics.json'' (Some ''ROOT'') corrupt_disk) = [] \<and>
   files (fs (init no_key ''topics.json'' ''user_topics.json'' (Some ''ROOT'') corrupt_disk))
     ''user_topics.json'' \<noteq> Some (Table (user_table []))"
  by (simp add: corrupt_disk_def init_def load_topics_def load_user_states_def
        save_topics_def save_user_states_def write_file_def)

text \<open>A missing user-state file is the one case in which startup writes it.\<close>

lemma missing_user_file_written:
  assumes "files d uf = None" and "tf \<noteq> uf"
    and "writes d uf (Table (user_table [])) = Written"
  shows "user_states (init py_int tf uf dflt d) = [] \<and>
         files (fs (init py_int tf uf dflt d)) uf = Some (Table (user_table []))"
proof -
  let ?s0 = "\<lparr>topics_file = tf, user_state_file = uf, default_folder_id = dflt,
              topics = [], user_states = [], fs = d\<rparr>"
  have u: "user_state_file (load_topics ?s0) = uf" using load_topics_keeps(1)[of ?s0] by simp
  have n: "files (fs (load_topics ?s0)) uf = None" and w: "writes (fs (load_topics ?s0)) = writes d"
    using assms(1,2)
    by (auto simp: load_topics_def fs_save_topics files_write_file
          split: option.splits content.splits)
  from u n w assms(3) show ?thesis
    by (simp add: init_def load_user_states_def fs_save_user_states files_write_file)
qed

section \<open>Properties of the upload orchestrator\<close>

text \<open>
  Claim C6. Validation fails with \<open>FileTooLargeError\<close> whenever the size exceeds the
  limit, whatever the MIME type; with no allow-list every MIME type passes the MIME
  check; with an allow-list an absent or empty MIME type passes, and a non-empty one that
  is not in the list fails with \<open>MimeNotAllowedError\<close>.
\<close>

theorem validate_contract:
  "(sz > max_file_size cfg \<longrightarrow>
      validate cfg sz mime = Inl (FileTooLargeError sz (max_file_size cfg))) \<and>
   (allowed_mime_types cfg = None \<longrightarrow> validate_mime cfg mime = Inr ()) \<and>
   (allowed_mime_types cfg = Some al \<longrightarrow>
      validate_mime cfg None = Inr () \<and> validate_mime cfg (Some []) = Inr () \<and>
      (m \<noteq> [] \<and> m \<notin> set al \<longrightarrow> validate_mime cfg (Some m) = Inl (MimeNotAllowedError m)) \<and>
      (m \<noteq> [] \<and> m \<notin> set al \<and> sz \<le> max_file_size cfg \<longrightarrow>
         validate cfg sz (Some m) = Inl (MimeNotAllowedError m)))"
  by (auto simp: validate_def validate_size_def validate_mime_def)

theorem validate_contract_witness:
  "validate demo_uploader 5 (Some ''image/jpeg'') = Inl (FileTooLargeError 5 4) \<and>
   validate_mime (demo_uploader\<lparr>allowed_mime_types := None\<rparr>) (Some ''text/x'') = Inr () \<and>
   validate_mime demo_uploader None = Inr () \<and>
   validate_mime demo_uploader (Some []) = Inr () \<and>
   validate_mime demo_uploader (Some ''text/x'') = Inl (MimeNotAllowedError ''text/x'') \<and>
   validate demo_uploader 3 (Some ''text/x'') = Inl (MimeNotAllowedError ''text/x'')"
  using validate_contract [of demo_uploader 5 "Some ''image/jpeg''" "[''image/jpeg'']" "''text/x''"]
    validate_contract [of "demo_uploader\<lparr>allowed_mime_types := None\<rparr>" 3 "Some ''text/x''"]
    validate_contract [of demo_uploader 3 "Some ''text/x''" "[''image/jpeg'']" "''text/x''"]
  by (simp add: demo_uploader_def)

lemma upload_items_rejected:
  "\<forall>x \<in> set pre. validate_item cfg x = Inr () \<Longrightarrow> validate_item cfg y = Inl e \<Longrightarrow>
   \<exists>fs. upload_items cfg sub (pre @ y # post) d = (Inl e, d @ fs) \<and>
        map stored_item fs = map (\<lambda>(n, c, m). (n, c)) pre \<and>
        (\<forall>f \<in> set fs. \<exists>i n c m. f = File i n sub c m)"
proof (induction pre arbitrary: d)
  case Nil
  then show ?case
    by (cases y) (auto simp: validate_item_def validate_def split: sum.splits)
next
  case (Cons x pre)
  obtain n c m where x: "x = (n, c, m)" by (cases x)
  from Cons.prems have ok: "validate_item cfg x = Inr ()"
    and rest: "\<forall>x \<in> set pre. validate_item cfg x = Inr ()"
    by auto
  let ?f = "File (fresh_id d) n sub c (or_else m ''application/octet-stream'')"
  from Cons.IH[OF rest Cons.prems(2), of "d @ [?f]"]
  obtain fs where fs:
    "upload_items cfg sub (pre @ y # post) (d @ [?f]) = (Inl e, (d @ [?f]) @ fs)"
    "map stored_item fs = map (\<lambda>(n, c, m). (n, c)) pre"
    "\<forall>f \<in> set fs. \<exists>i n c m. f = File i n sub c m" by blast
  have "upload_items cfg sub ((x # pre) @ y # post) d = (Inl e, d @ (?f # fs))"
    using ok fs(1)
    by (auto simp: x validate_item_def validate_def upload_file_bytes_def split: sum.splits)
  moreover have "stored_item ?f = (n, c)" by (simp add: stored_item_def)
  ultimately show ?case using fs(2,3) by (intro exI[of _ "?f # fs"]) (simp add: x)
qed

text \<open>
  Claim C5. When item \<open>k\<close> of a batch is the first that validation rejects,
  \<open>upload_media_group\<close> fails with that item's error; the backend then holds what it
  held before, the new album folder, and one file in that folder for each of the items
  before \<open>k\<close>, in order, and nothing for item \<open>k\<close> or a later one. Nothing is rolled back.
\<close>

theorem upload_media_group_not_transactional:
  assumes "k < length items"
    and "validate_item cfg (items ! k) = Inl e"
    and "\<forall>i < k. validate_item cfg (items ! i) = Inr ()"
  shows "\<exists>fs. upload_media_group cfg timestamp folder_id items d =
                 (Inl e, d @ Folder (fresh_id d) (''Album_'' @ timestamp) folder_id # fs) \<and>
               map stored_item fs = map (\<lambda>(n, c, m). (n, c)) (take k items) \<and>
               (\<forall>f \<in> set fs. \<exists>i n c m. f = File i n (fresh_id d) c m)"
proof -
  from assms(1) have split: "items = take k items @ items ! k # drop (Suc k) items"
    by (rule id_take_nth_drop)
  have pre: "\<forall>x \<in> set (take k items). validate_item cfg x = Inr ()"
  proof
    fix x assume "x \<in> set (take k items)"
    then obtain i where "i < length (take k items)" "x = take k items ! i"
      by (auto simp: in_set_conv_nth)
    with assms(3) show "validate_item cfg x = Inr ()" by simp
  qed
  let ?d1 = "d @ [Folder (fresh_id d) (''Album_'' @ timestamp) folder_id]"
  from upload_items_rejected[OF pre assms(2), of "fresh_id d" "drop (Suc k) items" ?d1]
  obtain fs where fs:
    "upload_items cfg (fresh_id d) (take k items @ items ! k # drop (Suc k) items) ?d1
       = (Inl e, ?d1 @ fs)"
    "map stored_item fs = map (\<lambda>(n, c, m). (n, c)) (take k items)"
    "\<forall>f \<in> set fs. \<exists>i n c m. f = File i n (fresh_id d) c m" by blast
  from fs(1) split have "upload_items cfg (fresh_id d) items ?d1 = (Inl e, ?d1 @ fs)" by simp
  then have "upload_media_group cfg timestamp folder_id items d =
      (Inl e, d @ Folder (fresh_id d) (''Album_'' @ timestamp) folder_id # fs)"
    by (simp add: upload_media_group_def create_subfolder_def)
  with fs(2,3) show ?thesis by blast
qed

theorem upload_media_group_not_transactional_witness:
  "fst (upload_media_group demo_uploader ''20250202_143022'' ''ROOT''
          [(''a.jpg'', ''abc'', Some ''image/jpeg''), (''b.jpg'', ''abcdef'', Some ''image/jpeg''),
           (''c.jpg'', ''ab'', Some ''image/jpeg'')] [])
     = Inl (FileTooLargeError 6 4) \<and>
   map stored_item
     (tl (snd (upload_media_group demo_uploader ''20250202_143022'' ''ROOT''
          [(''a.jpg'', ''abc'', Some ''image/jpeg''), (''b.jpg'', ''abcdef'', Some ''image/jpeg''),
           (''c.jpg'', ''ab'', Some ''image/jpeg'')] [])))
     = [(''a.jpg'', ''abc'')]"
proof -
  let ?items = "[(''a.jpg'', ''abc'', Some ''image/jpeg''), (''b.jpg'', ''abcdef'', Some ''image/jpeg''),
           (''c.jpg'', ''ab'', Some ''image/jpeg'')]"
  have h1: "1 < length ?items" by simp
  have h2: "validate_item demo_uploader (?items ! 1) = Inl (FileTooLargeError 6 4)"
    by (simp add: demo_uploader_def validate_item_def validate_def validate_size_def)
  have h3: "\<forall>i < 1. validate_item demo_uploader (?items ! i) = Inr ()"
    by (simp add: demo_uploader_def validate_item_def validate_def validate_size_def
          validate_mime_def)
  have "\<exists>fs. upload_media_group demo_uploader ''20250202_143022'' ''ROOT'' ?items [] =
                 (Inl (FileTooLargeError 6 4),
                  [] @ Folder (fresh_id []) (''Album_'' @ ''20250202_143022'') ''ROOT'' # fs) \<and>
               map stored_item fs = map (\<lambda>(n, c, m). (n, c)) (take 1 ?items) \<and>
               (\<forall>f \<in> set fs. \<exists>i n c m. f = File i n (fresh_id []) c m)"
    by (rule upload_media_group_not_transactional[OF h1 h2 h3])
  then show ?thesis by (elim exE conjE) simp
qed

text \<open>
  Claim C10. The album folder is created before any item is validated: when the first
  item of a batch fails validation, \<open>upload_media_group\<close> fails with that error, no file
  was stored, and the backend holds the new, empty folder in addition to what it held.
\<close>

theorem upload_media_group_leaves_folder:
  assumes "validate_item cfg it = Inl e"
  shows "upload_media_group cfg timestamp folder_id (it # rest) d =
           (Inl e, d @ [Folder (fresh_id d) (''Album_'' @ timestamp) folder_id])"
  using assms
  by (cases it)
     (auto simp: upload_media_group_def create_subfolder_def validate_item_def validate_def
        split: sum.splits)

theorem upload_media_group_leaves_folder_witness:
  "upload_media_group demo_uploader ''20250202_143022'' ''ROOT''
     [(''a.txt'', ''abc'', Some ''text/plain''), (''b.jpg'', ''ab'', Some ''image/jpeg'')] []
   = (Inl (MimeNotAllowedError ''text/plain''),
      [Folder ''id0'' ''Album_20250202_143022'' ''ROOT''])"
  using upload_media_group_leaves_folder
    [of demo_uploader "(''a.txt'', ''abc'', Some ''text/plain'')"
        "MimeNotAllowedError ''text/plain''" "''20250202_143022''" "''ROOT''"
        "[(''b.jpg'', ''ab'', Some ''image/jpeg'')]" "[]"]
  by (simp add: demo_uploader_def validate_item_def validate_def validate_size_def
        validate_mime_def fresh_id_def str_nat.simps digit_char_def)

section \<open>Properties of the aggregation engine\<close>

lemma map_of_distinct_snd:
  "distinct (map snd al) \<Longrightarrow> map_of al h = Some r \<Longrightarrow> map_of al g = Some r \<Longrightarrow> h = g"
proof (induction al)
  case Nil
  then show ?case by simp
next
  case (Cons p al)
  then show ?case
    by (cases p) (auto split: if_splits dest!: map_of_SomeD simp: image_iff)
qed

lemma map_of_bound:
  "\<forall>(k, r) \<in> set al. P k r \<Longrightarrow> map_of al g = Some r \<Longrightarrow> P g r"
  by (auto dest!: map_of_SomeD)

lemma wf_empty_engine: "wf_engine empty_engine"
  by (simp add: wf_engine_def empty_engine_def)

lemma wf_handle:
  assumes "wf_engine e" and "handle_media_with_group t upd e = Buffered e'"
  shows "wf_engine e'"
proof -
  from assms(2) obtain m g where upd: "upd = Some m" and g: "media_group_id m = Some g" "g \<noteq> []"
    by (auto simp: handle_media_with_group_def split: option.splits if_splits)
  show ?thesis
  proof (cases "map_of (media_group_buffer e) g")
    case None
    then have fresh: "g \<notin> set (map fst (media_group_buffer e))"
      by (simp add: map_of_eq_None_iff)
    from None assms(2) upd g have e': "e' = (schedule_media_group t g e)
         \<lparr>media_group_buffer := media_group_buffer e @ [(g, next_ref e)],
          entries_at := (entries_at e)(next_ref e := [m]), next_ref := Suc (next_ref e)\<rparr>"
      by (simp add: handle_media_with_group_def update_fresh[OF fresh])
    from assms(1) have "\<forall>r \<in> set (map snd (media_group_buffer e)). r < next_ref e"
      by (auto simp: wf_engine_def)
    then have "next_ref e \<notin> set (map snd (media_group_buffer e))" by blast
    with assms(1) fresh g show ?thesis
      unfolding e' wf_engine_def by (auto simp: less_Suc_eq)
  next
    case (Some r)
    with assms(2) upd g have "e' = e\<lparr>entries_at := (entries_at e)(r := entries_at e r @ [m])\<rparr>"
      by (simp add: handle_media_with_group_def)
    with assms(1) show ?thesis by (simp add: wf_engine_def)
  qed
qed

lemma wf_take_group:
  assumes "wf_engine e" and "take_group g e = (res, e')"
  shows "wf_engine e'"
proof -
  have sub: "set (AList.delete g (media_group_buffer e)) \<subseteq> set (media_group_buffer e)"
    by (auto simp: AList.delete_eq)
  have d1: "distinct (map snd (AList.delete g (media_group_buffer e)))"
    using assms(1) by (simp add: wf_engine_def AList.delete_eq distinct_map_filter)
  have d2: "distinct (map fst (AList.delete g (media_group_buffer e)))"
    using assms(1) by (simp add: wf_engine_def AList.distinct_delete)
  have b: "\<forall>(k, r) \<in> set (AList.delete g (media_group_buffer e)). r < next_ref e \<and> k \<noteq> []"
    using assms(1) sub unfolding wf_engine_def by blast
  from assms(2) have "e' = e \<or> e' = e\<lparr>media_group_buffer := AList.delete g (media_group_buffer e),
             media_group_tasks := AList.delete g (media_group_tasks e)\<rparr>"
    by (auto simp: take_group_def split: option.splits)
  then show ?thesis
    using assms(1) b d1 d2 by (auto simp: wf_engine_def)
qed

lemma same_group_idle: "same_group g e e' \<Longrightarrow> idle g e \<Longrightarrow> idle g e'"
  by (simp add: same_group_def idle_def)

lemma same_group_collecting: "same_group g e e' \<Longrightarrow> collecting g due ms e \<Longrightarrow> collecting g due ms e'"
  by (auto simp: same_group_def collecting_def)

lemma handle_other_key:
  assumes "wf_engine e" and "handle_media_with_group t (Some m) e = Buffered e'"
    and "media_group_id m \<noteq> Some g"
  shows "same_group g e e'"
proof -
  from assms(2) obtain h where h: "media_group_id m = Some h" "h \<noteq> []"
    by (auto simp: handle_media_with_group_def split: option.splits if_splits)
  with assms(3) have hg: "h \<noteq> g" by simp
  show ?thesis
  proof (cases "map_of (media_group_buffer e) h")
    case None
    with assms(2) h have e': "e' = (schedule_media_group t h e)
         \<lparr>media_group_buffer := AList.update h (next_ref e) (media_group_buffer e),
          entries_at := (entries_at e)(next_ref e := [m]), next_ref := Suc (next_ref e)\<rparr>"
      by (simp add: handle_media_with_group_def)
    have "\<And>r. map_of (media_group_buffer e) g = Some r \<Longrightarrow> r \<noteq> next_ref e"
      using assms(1) by (auto simp: wf_engine_def dest!: map_of_SomeD)
    then show ?thesis
      using hg unfolding e' same_group_def
      by (auto simp: schedule_media_group_def AList.update_conv')
  next
    case (Some r)
    with assms(2) h have e': "e' = e\<lparr>entries_at := (entries_at e)(r := entries_at e r @ [m])\<rparr>"
      by (simp add: handle_media_with_group_def)
    have "\<And>r'. map_of (media_group_buffer e) g = Some r' \<Longrightarrow> r' \<noteq> r"
      using assms(1) Some hg map_of_distinct_snd[of "media_group_buffer e" h r g]
      by (auto simp: wf_engine_def)
    then show ?thesis
      unfolding e' same_group_def by auto
  qed
qed

lemma handle_first:
  assumes "idle g e" and "media_group_id m = Some g" and "g \<noteq> []"
  shows "\<exists>e'. handle_media_with_group t (Some m) e = Buffered e' \<and>
              collecting g (t + MEDIA_GROUP_DELAY) [m] e'"
  using assms
  by (auto simp: handle_media_with_group_def idle_def collecting_def schedule_media_group_def
        AList.update_conv')

lemma handle_next:
  assumes "collecting g due ms e" and "media_group_id m = Some g" and "g \<noteq> []"
  shows "\<exists>e'. handle_media_with_group t (Some m) e = Buffered e' \<and>
              collecting g due (ms @ [m]) e'"
  using assms
  by (auto simp: handle_media_with_group_def collecting_def)

lemma take_other_key:
  assumes "take_group h e = (res, e')" and "h \<noteq> g"
  shows "same_group g e e'"
  using assms
  by (auto simp: take_group_def same_group_def AList.delete_conv' split: option.splits)


lemma fire_other_key:
  assumes "h \<noteq> g"
  shows "same_group g (eng s) (eng (fire due h s)) \<and> flushes_of g (fire due h s) = flushes_of g s"
proof -
  obtain res e' where t: "take_group h (eng s) = (res, e')" by (cases "take_group h (eng s)")
  from take_other_key[OF t assms] t assms show ?thesis
    by (cases res) (auto simp: fire_def flushes_of_def)
qed

lemma fire_absent:
  "map_of (media_group_buffer (eng s)) g = None \<Longrightarrow> fire due g s = s"
  by (simp add: fire_def take_group_def)

lemma fire_present:
  assumes "map_of (media_group_buffer (eng s)) g = Some r"
  shows "flushes_of g (fire due g s) = flushes_of g s @ [(due, entries_at (eng s) r)] \<and>
         map_of (media_group_buffer (eng (fire due g s))) g = None \<and>
         sleeping (eng (fire due g s)) = sleeping (eng s)"
  using assms by (simp add: fire_def take_group_def flushes_of_def AList.delete_conv')

lemma wf_fire: "wf_engine (eng s) \<Longrightarrow> wf_engine (eng (fire due h s))"
proof -
  assume wf: "wf_engine (eng s)"
  obtain res e' where t: "take_group h (eng s) = (res, e')" by (cases "take_group h (eng s)")
  from wf_take_group[OF wf t] t show ?thesis
    by (cases res) (auto simp: fire_def)
qed

lemma sleeping_fire: "sleeping (eng (fire due h s)) = sleeping (eng s)"
  by (auto simp: fire_def take_group_def split: option.splits)

lemma sleeping_wake: "sleeping (eng (wake t ts s)) = sleeping (eng s)"
  by (induction ts arbitrary: s) (auto simp: sleeping_fire)

lemma wf_wake: "wf_engine (eng s) \<Longrightarrow> wf_engine (eng (wake t ts s))"
  by (induction ts arbitrary: s) (auto simp: wf_fire)

lemma wake_absent:
  "map_of (media_group_buffer (eng s)) g = None \<Longrightarrow>
   map_of (media_group_buffer (eng (wake t ts s))) g = None \<and>
   flushes_of g (wake t ts s) = flushes_of g s"
proof (induction ts arbitrary: s)
  case Nil
  then show ?case by simp
next
  case (Cons p ts)
  obtain d k where p: "p = (d, k)" by (cases p)
  let ?s = "if d \<le> t then fire d k s else s"
  have "map_of (media_group_buffer (eng ?s)) g = None \<and> flushes_of g ?s = flushes_of g s"
  proof (cases "k = g")
    case True
    with Cons.prems show ?thesis by (simp add: fire_absent)
  next
    case False
    from fire_other_key[OF False, of s d] Cons.prems show ?thesis
      by (auto simp: same_group_def)
  qed
  with Cons.IH[of ?s] show ?case by (simp add: p)
qed

lemma wake_not_due:
  assumes "\<forall>(d, k) \<in> set ts. k = g \<longrightarrow> \<not> d \<le> t"
  shows "same_group g (eng s) (eng (wake t ts s)) \<and> flushes_of g (wake t ts s) = flushes_of g s"
  using assms
proof (induction ts arbitrary: s)
  case Nil
  then show ?case by (simp add: same_group_def)
next
  case (Cons p ts)
  obtain d k where p: "p = (d, k)" by (cases p)
  let ?s = "if d \<le> t then fire d k s else s"
  have step: "same_group g (eng s) (eng ?s) \<and> flushes_of g ?s = flushes_of g s"
  proof (cases "d \<le> t")
    case True
    with Cons.prems p have "k \<noteq> g" by auto
    from fire_other_key[OF this, of s d] True show ?thesis by simp
  next
    case False
    then show ?thesis by (simp add: same_group_def)
  qed
  from Cons.prems have "\<forall>(d, k) \<in> set ts. k = g \<longrightarrow> \<not> d \<le> t" by simp
  from Cons.IH[OF this, of ?s] step show ?case
    by (auto simp: p same_group_def)
qed

lemma wake_due:
  assumes "filter (\<lambda>(d, k). k = g) ts = [(due, g)]" and "due \<le> t"
    and "map_of (media_group_buffer (eng s)) g = Some r" and "entries_at (eng s) r = ms"
  shows "flushes_of g (wake t ts s) = flushes_of g s @ [(due, ms)] \<and>
         map_of (media_group_buffer (eng (wake t ts s))) g = None"
  using assms
proof (induction ts arbitrary: s)
  case Nil
  then show ?case by simp
next
  case (Cons p ts)
  obtain d k where p: "p = (d, k)" by (cases p)
  show ?case
  proof (cases "k = g")
    case True
    with Cons.prems(1) p have d: "d = due" and rest: "filter (\<lambda>(d, k). k = g) ts = []" by auto
    from fire_present[OF Cons.prems(3), of due] Cons.prems(4)
    have f: "flushes_of g (fire due g s) = flushes_of g s @ [(due, ms)]"
      "map_of (media_group_buffer (eng (fire due g s))) g = None" by auto
    from wake_absent[OF f(2), of t ts] f(1) Cons.prems(2) show ?thesis
      by (simp add: p True d)
  next
    case False
    let ?s = "if d \<le> t then fire d k s else s"
    from fire_other_key[OF False, of s d]
    have step: "same_group g (eng s) (eng ?s)" "flushes_of g ?s = flushes_of g s"
      by (auto simp: same_group_def)
    from False Cons.prems(1) p have rest: "filter (\<lambda>(d, k). k = g) ts = [(due, g)]" by auto
    from step(1) Cons.prems(3,4) have
      "map_of (media_group_buffer (eng ?s)) g = Some r" "entries_at (eng ?s) r = ms"
      by (auto simp: same_group_def)
    from Cons.IH[OF rest Cons.prems(2) this] step(2) show ?thesis
      by (simp add: p)
  qed
qed



lemma filter_key_commute:
  "filter (\<lambda>(d, k). k = g) (filter P ts) = filter P (filter (\<lambda>(d, k). k = (g::string)) ts)"
  by (induction ts) auto

lemma pending_none:
  "filter (\<lambda>(d, k). k = (g::string)) ts = [] \<Longrightarrow> filter (\<lambda>(d, k). k = g) (filter P ts) = []"
  by (simp only: filter_key_commute) simp

lemma pending_due:
  "filter (\<lambda>(d, k). k = (g::string)) ts = [(due, g)] \<Longrightarrow> due \<le> t \<Longrightarrow>
   filter (\<lambda>(d, k). k = g) (filter (\<lambda>(d, k). \<not> d \<le> (t::nat)) ts) = []"
  by (simp only: filter_key_commute) simp

lemma pending_early:
  "filter (\<lambda>(d, k). k = (g::string)) ts = [(due, g)] \<Longrightarrow> t < due \<Longrightarrow>
   filter (\<lambda>(d, k). k = g) (filter (\<lambda>(d, k). \<not> d \<le> (t::nat)) ts) = [(due, g)]"
  by (simp only: filter_key_commute) simp

lemma flushes_of_eng [simp]: "flushes_of g (s\<lparr>eng := e\<rparr>) = flushes_of g s"
  by (simp add: flushes_of_def)

lemma wf_advance: "wf_engine (eng s) \<Longrightarrow> wf_engine (eng (advance t s))"
  using wf_wake[of s t "sleeping (eng s)"] by (simp add: advance_def Let_def wf_engine_def)

lemma advance_idle:
  assumes "idle g (eng s)"
  shows "idle g (eng (advance t s)) \<and> flushes_of g (advance t s) = flushes_of g s"
proof -
  from assms have a: "map_of (media_group_buffer (eng s)) g = None"
    and b: "filter (\<lambda>(d, k). k = g) (sleeping (eng s)) = []" by (auto simp: idle_def)
  from wake_absent[OF a, of t "sleeping (eng s)"] pending_none[OF b] show ?thesis
    by (simp add: advance_def Let_def idle_def sleeping_wake del: filter_filter)
qed

lemma advance_early:
  assumes "collecting g due ms (eng s)" and "t < due"
  shows "collecting g due ms (eng (advance t s)) \<and> flushes_of g (advance t s) = flushes_of g s"
proof -
  from assms(1) have f: "filter (\<lambda>(d, k). k = g) (sleeping (eng s)) = [(due, g)]"
    by (simp add: collecting_def)
  have "\<forall>(d, k) \<in> set (sleeping (eng s)). k = g \<longrightarrow> \<not> d \<le> t"
  proof (clarify)
    fix d assume "(d, g) \<in> set (sleeping (eng s))" "d \<le> t"
    then have "(d, g) \<in> set (filter (\<lambda>(d, k). k = g) (sleeping (eng s)))" by simp
    with f assms(2) \<open>d \<le> t\<close> show False by simp
  qed
  from wake_not_due[OF this, of s] same_group_collecting[OF _ assms(1)]
  have w: "collecting g due ms (eng (wake t (sleeping (eng s)) s))"
    "flushes_of g (wake t (sleeping (eng s)) s) = flushes_of g s" by auto
  from w(1) pending_early[OF f assms(2)] have "collecting g due ms
     ((eng (wake t (sleeping (eng s)) s))\<lparr>sleeping :=
        filter (\<lambda>(due, mgid). \<not> due \<le> t) (sleeping (eng (wake t (sleeping (eng s)) s)))\<rparr>)"
    by (simp add: collecting_def sleeping_wake del: filter_filter)
  with w(2) show ?thesis by (simp add: advance_def Let_def)
qed

lemma advance_due:
  assumes "collecting g due ms (eng s)" and "due \<le> t"
  shows "idle g (eng (advance t s)) \<and> flushes_of g (advance t s) = flushes_of g s @ [(due, ms)]"
proof -
  from assms(1) obtain r where f: "filter (\<lambda>(d, k). k = g) (sleeping (eng s)) = [(due, g)]"
    and r: "map_of (media_group_buffer (eng s)) g = Some r" "entries_at (eng s) r = ms"
    by (auto simp: collecting_def)
  from wake_due[OF f assms(2) r] pending_due[OF f assms(2)] show ?thesis
    by (simp add: advance_def Let_def idle_def sleeping_wake del: filter_filter)
qed

lemma wf_arrive:
  assumes "wf_engine (eng s)"
  shows "wf_engine (eng (arrive t m s))"
proof (cases "handle_media_with_group t (Some m) (eng (advance t s))")
  case (Buffered e')
  from wf_handle[OF wf_advance[OF assms] Buffered] Buffered show ?thesis
    by (simp add: arrive_def Let_def)
qed (use wf_advance[OF assms, of t] in \<open>simp_all add: arrive_def Let_def\<close>)


lemma arrive_other_key:
  assumes "wf_engine (eng s)" and "media_group_id m \<noteq> Some g"
  shows "same_group g (eng (advance t s)) (eng (arrive t m s))"
proof (cases "handle_media_with_group t (Some m) (eng (advance t s))")
  case (Buffered e')
  from handle_other_key[OF wf_advance[OF assms(1)] Buffered assms(2)] Buffered
  show ?thesis by (simp add: arrive_def Let_def)
qed (simp_all add: arrive_def Let_def same_group_def)

lemma arrive_first:
  assumes "idle g (eng s)" and "media_group_id m = Some g" and "g \<noteq> []"
  shows "collecting g (t + MEDIA_GROUP_DELAY) [m] (eng (arrive t m s)) \<and>
         flushes_of g (arrive t m s) = flushes_of g s"
proof -
  from advance_idle[OF assms(1), of t]
  have i: "idle g (eng (advance t s))" and fl: "flushes_of g (advance t s) = flushes_of g s" by auto
  from handle_first[OF i assms(2,3), of t] fl show ?thesis
    by (auto simp: arrive_def Let_def)
qed





text \<open>Every run from the empty engine stays in such states.\<close>

lemma settled_empty: "settled empty_engine"
  using wf_empty_engine by (simp add: settled_def idle_def empty_engine_def)

lemma settled_advance:
  assumes "settled (eng s)"
  shows "settled (eng (advance t s))"
proof -
  from assms have wf: "wf_engine (eng s)" by (simp add: settled_def)
  have "idle g (eng (advance t s)) \<or> (\<exists>due ms. collecting g due ms (eng (advance t s)))" for g
  proof -
    from assms have "idle g (eng s) \<or> (\<exists>due ms. collecting g due ms (eng s))"
      unfolding settled_def by blast
    then consider "idle g (eng s)" | due ms where "collecting g due ms (eng s)"
      by blast
    then show ?thesis
    proof cases
      case 1
      with advance_idle[of g s t] show ?thesis by simp
    next
      case 2
      show ?thesis
      proof (cases "t < due")
        case True
        with advance_early[OF 2 True] show ?thesis by blast
      next
        case False
        then have "due \<le> t" by simp
        with advance_due[OF 2 this] show ?thesis by simp
      qed
    qed
  qed
  with wf_advance[OF wf] show ?thesis by (simp add: settled_def)
qed

lemma settled_arrive:
  assumes "settled (eng s)"
  shows "settled (eng (arrive t m s))"
proof -
  let ?a = "advance t s"
  from assms have wf: "wf_engine (eng s)" by (simp add: settled_def)
  from settled_advance[OF assms] have a: "settled (eng ?a)" .
  have "idle g (eng (arrive t m s)) \<or> (\<exists>due ms. collecting g due ms (eng (arrive t m s)))" for g
  proof (cases "media_group_id m = Some g")
    case True
    show ?thesis
    proof (cases "g = []")
      case empty: True
      with True have "eng (arrive t m s) = eng ?a"
        by (simp add: arrive_def Let_def handle_media_with_group_def)
      with a show ?thesis by (simp add: settled_def)
    next
      case False
      from a have "idle g (eng ?a) \<or> (\<exists>due ms. collecting g due ms (eng ?a))"
        unfolding settled_def by blast
      then consider "idle g (eng ?a)" | due ms where "collecting g due ms (eng ?a)"
        by blast
      then show ?thesis
      proof cases
        case 1
        from handle_first[OF 1 True False, of t] show ?thesis
          by (auto simp: arrive_def Let_def)
      next
        case 2
        from handle_next[OF 2 True False, of t] show ?thesis
          by (auto simp: arrive_def Let_def)
      qed
    qed
  next
    case False
    from a have "idle g (eng ?a) \<or> (\<exists>due ms. collecting g due ms (eng ?a))"
      unfolding settled_def by blast
    with arrive_other_key[OF wf False, of t] show ?thesis
      by (blast dest: same_group_idle same_group_collecting)
  qed
  with wf_arrive[OF wf] show ?thesis by (simp add: settled_def)
qed

lemma settled_run: "settled (eng s) \<Longrightarrow> settled (eng (run evs s))"
proof (induction evs arbitrary: s)
  case Nil
  then show ?case by simp
next
  case (Cons ev evs)
  then show ?case by (cases ev) (simp add: settled_arrive)
qed





subsection \<open>The list a flush holds\<close>

lemma snd_update_subset:
  "set (map snd (AList.update k v al)) \<subseteq> insert v (set (map snd al))"
  by (induction al) auto

lemma detached_handle:
  assumes "detached r e" and "handle_media_with_group t upd e = Buffered e'"
  shows "detached r e' \<and> entries_at e' r = entries_at e r"
proof -
  from assms(2) obtain m g where upd: "upd = Some m" and g: "media_group_id m = Some g" "g \<noteq> []"
    by (auto simp: handle_media_with_group_def split: option.splits if_splits)
  show ?thesis
  proof (cases "map_of (media_group_buffer e) g")
    case None
    with assms(2) upd g have e': "e' = (schedule_media_group t g e)
         \<lparr>media_group_buffer := AList.update g (next_ref e) (media_group_buffer e),
          entries_at := (entries_at e)(next_ref e := [m]), next_ref := Suc (next_ref e)\<rparr>"
      by (simp add: handle_media_with_group_def)
    from assms(1) have "r < next_ref e" "r \<notin> set (map snd (media_group_buffer e))"
      by (simp_all add: detached_def)
    with snd_update_subset[of g "next_ref e" "media_group_buffer e"]
    have "r \<notin> set (map snd (AList.update g (next_ref e) (media_group_buffer e)))" by auto
    with \<open>r < next_ref e\<close> show ?thesis
      unfolding e' detached_def by simp
  next
    case (Some r')
    with assms(2) upd g have e': "e' = e\<lparr>entries_at := (entries_at e)(r' := entries_at e r' @ [m])\<rparr>"
      by (simp add: handle_media_with_group_def)
    from Some have "r' \<in> set (map snd (media_group_buffer e))"
      by (force dest!: map_of_SomeD)
    with assms(1) have "r' \<noteq> r" by (auto simp: detached_def)
    with assms(1) show ?thesis unfolding e' detached_def by simp
  qed
qed

lemma detached_take:
  assumes "detached r e" and "take_group h e = (res, e')"
  shows "detached r e'"
proof -
  have "set (map snd (AList.delete h (media_group_buffer e))) \<subseteq> set (map snd (media_group_buffer e))"
    by (auto simp: AList.delete_eq)
  with assms(1) have "r \<notin> set (map snd (AList.delete h (media_group_buffer e)))"
    unfolding detached_def by blast
  moreover from assms(2) have "e' = e \<or>
      e' = e\<lparr>media_group_buffer := AList.delete h (media_group_buffer e),
             media_group_tasks := AList.delete h (media_group_tasks e)\<rparr>"
    by (auto simp: take_group_def split: option.splits)
  ultimately show ?thesis using assms(1) by (auto simp: detached_def)
qed

lemma entries_take: "take_group h e = (res, e') \<Longrightarrow> entries_at e' = entries_at e"
  by (auto simp: take_group_def split: option.splits)

lemma take_detaches:
  assumes "wf_engine e" and "take_group g e = (Some r, e')"
  shows "detached r e'"
proof -
  from assms(2) have r: "map_of (media_group_buffer e) g = Some r"
    and e': "e' = e\<lparr>media_group_buffer := AList.delete g (media_group_buffer e),
                   media_group_tasks := AList.delete g (media_group_tasks e)\<rparr>"
    by (auto simp: take_group_def split: option.splits)
  from r assms(1) have lt: "r < next_ref e" by (auto simp: wf_engine_def dest!: map_of_SomeD)
  have "r \<notin> set (map snd (AList.delete g (media_group_buffer e)))"
  proof
    assume "r \<in> set (map snd (AList.delete g (media_group_buffer e)))"
    then obtain k where k: "(k, r) \<in> set (media_group_buffer e)" "k \<noteq> g"
      by (auto simp: AList.delete_eq)
    from assms(1) have "distinct (map fst (media_group_buffer e))" by (simp add: wf_engine_def)
    with k(1) have "map_of (media_group_buffer e) k = Some r" by simp
    from map_of_distinct_snd[OF _ this r] assms(1) k(2) show False by (simp add: wf_engine_def)
  qed
  with lt show ?thesis unfolding e' detached_def by simp
qed

lemma entries_fire: "entries_at (eng (fire due h s)) = entries_at (eng s)"
  by (auto simp: fire_def take_group_def split: option.splits)

lemma detached_fire: "detached r (eng s) \<Longrightarrow> detached r (eng (fire due h s))"
proof -
  assume d: "detached r (eng s)"
  obtain res e' where t: "take_group h (eng s) = (res, e')" by (cases "take_group h (eng s)")
  from detached_take[OF d t] t show ?thesis by (cases res) (auto simp: fire_def)
qed

lemma entries_wake: "entries_at (eng (wake t ts s)) = entries_at (eng s)"
  by (induction ts arbitrary: s) (auto simp: entries_fire)

lemma detached_wake: "detached r (eng s) \<Longrightarrow> detached r (eng (wake t ts s))"
  by (induction ts arbitrary: s) (auto simp: detached_fire)

lemma detached_sleeping [simp]: "detached r (e\<lparr>sleeping := ts\<rparr>) = detached r e"
  by (simp add: detached_def)

lemma entries_advance: "entries_at (eng (advance t s)) = entries_at (eng s)"
  by (simp add: advance_def Let_def entries_wake)

lemma detached_advance: "detached r (eng s) \<Longrightarrow> detached r (eng (advance t s))"
  by (simp add: advance_def Let_def detached_wake)

lemma detached_arrive:
  assumes "detached r (eng s)"
  shows "detached r (eng (arrive t m s)) \<and> entries_at (eng (arrive t m s)) r = entries_at (eng s) r"
proof (cases "handle_media_with_group t (Some m) (eng (advance t s))")
  case (Buffered e')
  from detached_handle[OF detached_advance[OF assms] Buffered] Buffered show ?thesis
    by (simp add: arrive_def Let_def entries_advance)
qed (use detached_advance[OF assms, of t] in \<open>simp_all add: arrive_def Let_def entries_advance\<close>)

lemma detached_run:
  "detached r (eng s) \<Longrightarrow>
   detached r (eng (run evs s)) \<and> entries_at (eng (run evs s)) r = entries_at (eng s) r"
proof (induction evs arbitrary: s)
  case Nil
  then show ?case by simp
next
  case (Cons ev evs)
  obtain t m where ev: "ev = (t, m)" by (cases ev)
  from detached_arrive[OF Cons.prems, of t m] Cons.IH[of "arrive t m s"] show ?case
    by (simp add: ev)
qed

lemma wake_detaches:
  assumes "filter (\<lambda>(d, k). k = g) ts = [(due, g)]" and "due \<le> t"
    and "wf_engine (eng s)" and "map_of (media_group_buffer (eng s)) g = Some r"
  shows "detached r (eng (wake t ts s))"
  using assms
proof (induction ts arbitrary: s)
  case Nil
  then show ?case by simp
next
  case (Cons p ts)
  obtain d k where p: "p = (d, k)" by (cases p)
  show ?case
  proof (cases "k = g")
    case True
    with Cons.prems(1) p have d: "d = due" by auto
    from Cons.prems(4) have "take_group g (eng s) =
        (Some r, (eng s)\<lparr>media_group_buffer := AList.delete g (media_group_buffer (eng s)),
                        media_group_tasks := AList.delete g (media_group_tasks (eng s))\<rparr>)"
      by (simp add: take_group_def)
    from take_detaches[OF Cons.prems(3) this] Cons.prems(4)
    have "detached r (eng (fire due g s))" by (simp add: fire_def take_group_def)
    from detached_wake[OF this, of t ts] Cons.prems(2) show ?thesis
      by (simp add: p True d)
  next
    case False
    let ?s = "if d \<le> t then fire d k s else s"
    from fire_other_key[OF False, of s d] Cons.prems(4)
    have r: "map_of (media_group_buffer (eng ?s)) g = Some r" by (auto simp: same_group_def)
    from Cons.prems(3) have wf: "wf_engine (eng ?s)" by (simp add: wf_fire)
    from False Cons.prems(1) p have rest: "filter (\<lambda>(d, k). k = g) ts = [(due, g)]" by auto
    from Cons.IH[OF rest Cons.prems(2) wf r] show ?thesis by (simp add: p)
  qed
qed

lemma advance_detaches:
  assumes "wf_engine (eng s)" and "map_of (media_group_buffer (eng s)) g = Some r"
    and "filter (\<lambda>(d, k). k = g) (sleeping (eng s)) = [(due, g)]" and "due \<le> t"
  shows "detached r (eng (advance t s))"
  using wake_detaches[OF assms(3,4,1,2)] by (simp add: advance_def Let_def)

text \<open>
  Claim C2. Let the group of \<open>g\<close> hold the list \<open>r\<close> with entries \<open>ms\<close> and be due at
  \<open>due\<close>, and let the event loop reach a time \<open>T\<close> at or after \<open>due\<close>: the flush has taken
  the group out of the buffer with exactly \<open>ms\<close>. Whatever arrives from then on, for this
  key or another, the list \<open>r\<close> still has the entries \<open>ms\<close>; and an update that carries
  \<open>g\<close> and arrives at a time \<open>t\<close> starts a group of its own: a list other than \<open>r\<close> that
  holds this update alone, with a task of its own due at \<open>t\<close> plus the delay.
\<close>

theorem late_event_starts_new_group:
  assumes "wf_engine (eng s)" and "map_of (media_group_buffer (eng s)) g = Some r"
    and "collecting g due ms (eng s)" and "due \<le> T"
  shows "flushes_of g (advance T s) = flushes_of g s @ [(due, ms)] \<and>
         (\<forall>evs. entries_at (eng (run evs (advance T s))) r = ms) \<and>
         (\<forall>t m. media_group_id m = Some g \<longrightarrow>
            collecting g (t + MEDIA_GROUP_DELAY) [m] (eng (arrive t m (advance T s))) \<and>
            map_of (media_group_buffer (eng (arrive t m (advance T s)))) g \<noteq> Some r)"
proof -
  from assms(2,3) have ms: "entries_at (eng s) r = ms"
    and tasks: "filter (\<lambda>(d, k). k = g) (sleeping (eng s)) = [(due, g)]"
    by (auto simp: collecting_def)
  from assms(1,2) have g: "g \<noteq> []" by (auto simp: wf_engine_def dest!: map_of_SomeD)
  from advance_due[OF assms(3,4)]
  have i: "idle g (eng (advance T s))"
    and fl: "flushes_of g (advance T s) = flushes_of g s @ [(due, ms)]" by simp_all
  have d: "detached r (eng (advance T s))"
    by (rule advance_detaches[OF assms(1,2) tasks assms(4)])
  have held: "\<forall>evs. entries_at (eng (run evs (advance T s))) r = ms"
    using detached_run[OF d] ms by (simp add: entries_advance)
  have late: "\<forall>t m. media_group_id m = Some g \<longrightarrow>
            collecting g (t + MEDIA_GROUP_DELAY) [m] (eng (arrive t m (advance T s))) \<and>
            map_of (media_group_buffer (eng (arrive t m (advance T s)))) g \<noteq> Some r"
  proof (intro allI impI)
    fix t and m :: message
    assume m: "media_group_id m = Some g"
    from arrive_first[OF i m g, of t]
    have c: "collecting g (t + MEDIA_GROUP_DELAY) [m] (eng (arrive t m (advance T s)))" by simp
    from detached_arrive[OF d, of t m]
    have "r \<notin> set (map snd (media_group_buffer (eng (arrive t m (advance T s)))))"
      by (simp add: detached_def)
    then have "map_of (media_group_buffer (eng (arrive t m (advance T s)))) g \<noteq> Some r"
      by (force dest!: map_of_SomeD)
    with c show "collecting g (t + MEDIA_GROUP_DELAY) [m] (eng (arrive t m (advance T s))) \<and>
            map_of (media_group_buffer (eng (arrive t m (advance T s)))) g \<noteq> Some r" by simp
  qed
  from fl held late show ?thesis by simp
qed


theorem late_event_starts_new_group_witness:
  "flushes_of ''G1'' (advance 1500 busy) = [(1500, [photo 1 ''G1'', photo 2 ''G1''])] \<and>
   entries_at (eng (run [(1600, photo 3 ''G1''), (1700, photo 4 ''G1'')] (advance 1500 busy))) 0
     = [photo 1 ''G1'', photo 2 ''G1''] \<and>
   collecting ''G1'' (1600 + MEDIA_GROUP_DELAY) [photo 3 ''G1'']
     (eng (arrive 1600 (photo 3 ''G1'') (advance 1500 busy)))"
proof -
  have h: "wf_engine (eng busy)" "map_of (media_group_buffer (eng busy)) ''G1'' = Some 0"
    "collecting ''G1'' 1500 [photo 1 ''G1'', photo 2 ''G1''] (eng busy)" "(1500::nat) \<le> 1500"
    by (simp_all add: busy_def start_def empty_engine_def arrive_def advance_def fire_def
          take_group_def handle_media_with_group_def schedule_media_group_def Let_def photo_def
          MEDIA_GROUP_DELAY_def wf_engine_def collecting_def)
  have e: "flushes_of ''G1'' busy = []"
    by (simp add: flushes_of_def busy_def start_def empty_engine_def arrive_def advance_def
          handle_media_with_group_def schedule_media_group_def Let_def photo_def
          MEDIA_GROUP_DELAY_def)
  note c = late_event_starts_new_group[OF h]
  from c[THEN conjunct1] e
  have "flushes_of ''G1'' (advance 1500 busy) = [(1500, [photo 1 ''G1'', photo 2 ''G1''])]"
    by simp
  moreover from c[THEN conjunct2, THEN conjunct1]
  have "entries_at (eng (run [(1600, photo 3 ''G1''), (1700, photo 4 ''G1'')] (advance 1500 busy))) 0
     = [photo 1 ''G1'', photo 2 ''G1'']" by (rule spec)
  moreover have "media_group_id (photo 3 ''G1'') = Some ''G1''" by (simp add: photo_def)
  with c[THEN conjunct2, THEN conjunct2, rule_format, of "photo 3 ''G1''" 1600]
  have "collecting ''G1'' (1600 + MEDIA_GROUP_DELAY) [photo 3 ''G1'']
     (eng (arrive 1600 (photo 3 ''G1'') (advance 1500 busy)))" by simp
  ultimately show ?thesis by simp
qed

end
